theory Spec2Isabelle
  imports Main "HOL-Library.Sublist"
begin

section \<open>Python string primitives used by the scripts\<close>

text \<open>
  Both scripts work on the whole text of one file with two string primitives of
  Python: the membership test \<^verbatim>\<open>a in b\<close> and the method \<^verbatim>\<open>b.replace(old, new)\<close>.
  A text is a \<^typ>\<open>string\<close>, a list of 8-bit characters. All constants of the scripts are
  ASCII, so on a text in UTF-8 the two primitives find and replace the same blocks
  whether the text is taken by characters or by bytes.
\<close>

text \<open>\<^verbatim>\<open>sub in s\<close> on strings: \<open>sub\<close> occurs in \<open>s\<close> as a contiguous block.\<close>

abbreviation str_in :: "string \<Rightarrow> string \<Rightarrow> bool" where
  "str_in sub s \<equiv> sublist sub s"

text \<open>
  \<^verbatim>\<open>s.replace(old, new)\<close> with a non-empty \<open>old\<close>: the text is scanned from the left;
  wherever \<open>old\<close> starts at the current position it is replaced by \<open>new\<close> and the scan
  resumes after the replaced block (occurrences do not overlap), otherwise the current
  character is kept. Every occurrence met this way is replaced, not only the first.
\<close>

function replace_scan :: "string \<Rightarrow> string \<Rightarrow> string \<Rightarrow> string" where
  "replace_scan old new [] = []"
| "replace_scan old new (c # cs) =
     (if old \<noteq> [] \<and> prefix old (c # cs)
      then new @ replace_scan old new (drop (length old) (c # cs))
      else c # replace_scan old new cs)"
  by pat_completeness auto
termination
  by (relation "measure (\<lambda>(old, new, s). length s)") auto

text \<open>
  The method itself. With an empty \<open>old\<close> Python puts \<open>new\<close> in front of the text and
  after every character of it.
\<close>

definition str_replace :: "string \<Rightarrow> string \<Rightarrow> string \<Rightarrow> string" where
  "str_replace s old new =
     (if old = [] then new @ concat (map (\<lambda>c. c # new) s) else replace_scan old new s)"

text \<open>A triple-quoted literal that spans lines: every line is followed by a newline.\<close>

definition unlines :: "string list \<Rightarrow> string" where
  "unlines ls = concat (map (\<lambda>l. l @ [CHR 0x0A]) ls)"

section \<open>The constants of \<^verbatim>\<open>update_repo.py\<close>\<close>

definition repo_file_path :: string where
  "repo_file_path = ''.worktrees/feature-task-1768089767889-rn7jmx/packages/mcp-server/src/state/task-repository.ts''"

definition interface_target :: string where
  "interface_target = ''  /** Get task history with filtering and search */''"

definition interface_insert :: string where
  "interface_insert = unlines
    [''  /** Get all agents that are currently assigned tasks (Active only) */'',
     ''  getBusyAgentIds(): string[];'']"

definition class_target :: string where
  "class_target = ''  getHistory(options: { status?: TaskStatus | 'ACTIVE'; limit?: number; offset?: number; agentId?: string; search?: string }): Task[] {''"

definition class_insert :: string where
  "class_insert = unlines
    [''  getBusyAgentIds(): string[] {'',
     ''    const rows = this.database.prepare('',
     ''      `SELECT DISTINCT assignedTo FROM tasks WHERE status IN ('ASSIGNED', 'IN_PROGRESS', 'PENDING_ACK') AND assignedTo IS NOT NULL`'',
     ''    ).all() as any[];'',
     ''    return rows.map(r => r.assignedTo);'',
     ''  }'',
     '''']"

section \<open>The constants of \<^verbatim>\<open>update_lifecycle.py\<close>\<close>

text \<open>
  The literal assigned to \<^verbatim>\<open>methods\<close> opens with three double quotes on line 10, and
  line 53 of the script holds one double quote only, so the file does not close the
  literal (see \<open>run_file\<close> below for what that does to a run). The text modelled here
  is the one between the opening delimiter and line 53, that is the newline
  that follows the opening delimiter and then lines 11 to 52: the value the guarded statement of
  lines 57 and 58 would work with.
\<close>

definition lifecycle_file_path :: string where
  "lifecycle_file_path = ''.worktrees/feature-task-1768089767889-rn7jmx/packages/mcp-server/src/state/services/task-lifecycle-service.ts''"

definition methods :: string where
  "methods = CHR 0x0A # unlines
    [''  resetStaleTasks(): void {'',
     ''    try {'',
     ''      // Reset PENDING_ACK tasks to QUEUED'',
     ''      const stale = this.repo.getByStatus('PENDING_ACK');'',
     ''      for (const task of stale) {'',
     ''        console.log(`[TaskLifecycle] Resetting PENDING_ACK task ${task.id} to QUEUED on startup`);'',
     ''        this.updateStatus(task.id, 'QUEUED');'',
     ''      }'',
     ''      '',
     ''      // Reset waiting agents'',
     ''      this.persistence.resetWaitingAgents();'',
     ''    } catch (e: any) {'',
     ''      console.error(`[TaskLifecycle] Failed to reset stale state: ${e.message}`);'',
     ''    }'',
     ''  }'',
     '''',
     ''  ackTask(taskId: string, agentId: string): { success: boolean; error?: string } {'',
     ''    const task = this.repo.getById(taskId);'',
     '''',
     ''    if (!task) {'',
     ''      return { success: false, error: 'Task not found' };'',
     ''    }'',
     '''',
     ''    if (task.status !== 'PENDING_ACK') {'',
     ''      return { success: false, error: 'Task is not in PENDING_ACK state' };'',
     ''    }'',
     '''',
     ''    const pendingAck = this.persistence.getPendingAcks().get(taskId);'',
     ''    if (!pendingAck || pendingAck.agentId !== agentId) {'',
     ''      return { success: false, error: `ACK failed: Expected agent ${pendingAck?.agentId} but got ${agentId}` };'',
     ''    }'',
     '''',
     ''    // Success: Transition to ASSIGNED'',
     ''    // Use updateStatus to handle history/logging and assignment'',
     ''    this.updateStatus(taskId, 'ASSIGNED', undefined, agentId);'',
     ''    '',
     ''    // Clear pending ACK flags'',
     ''    this.persistence.clearPendingAck(taskId);'',
     '''',
     ''    console.log(`[TaskLifecycle] Task ${taskId} ACKed by ${agentId}, now ASSIGNED`);'',
     ''    return { success: true };'',
     ''  }'']"

definition target :: string where
  "target = ''  private persistUpdate(task: Task): void {''"

section \<open>The guarded insertions\<close>

text \<open>
  Each patch is one guarded statement of the form
  \<^verbatim>\<open>if marker not in content: content = content.replace(anchor, insertion + anchor)\<close>.
  When the guard fails the text is left as it is. The three statements follow, each as
  it stands in its script, and then their common shape.
\<close>

text \<open>\<^verbatim>\<open>update_repo.py\<close>, lines 26 and 27.\<close>

definition interface_step :: "string \<Rightarrow> string" where
  "interface_step content =
     (if \<not> str_in interface_insert content
      then str_replace content interface_target (interface_insert @ interface_target)
      else content)"

text \<open>\<^verbatim>\<open>update_repo.py\<close>, lines 29 and 30.\<close>

definition class_step :: "string \<Rightarrow> string" where
  "class_step content =
     (if \<not> str_in class_insert content
      then str_replace content class_target (class_insert @ class_target)
      else content)"

text \<open>\<^verbatim>\<open>update_lifecycle.py\<close>, lines 57 and 58.\<close>

definition lifecycle_step :: "string \<Rightarrow> string" where
  "lifecycle_step content =
     (if \<not> str_in ''ackTask'' content
      then str_replace content target ((methods @ [CHR 0x0A]) @ target)
      else content)"

definition guarded_insert :: "string \<Rightarrow> string \<Rightarrow> string \<Rightarrow> string \<Rightarrow> string" where
  "guarded_insert mk an ins content =
     (if \<not> str_in mk content then str_replace content an (ins @ an) else content)"

text \<open>
  The patches the two scripts define, with the string each one tests in its guard
  (\<open>marker\<close>), the string it replaces (\<open>anchor\<close>) and the text it puts in front of the
  anchor (\<open>insertion\<close>).
\<close>

datatype patch = Interface_patch | Class_patch | Lifecycle_patch

fun marker :: "patch \<Rightarrow> string" where
  "marker Interface_patch = interface_insert"
| "marker Class_patch = class_insert"
| "marker Lifecycle_patch = ''ackTask''"

fun anchor :: "patch \<Rightarrow> string" where
  "anchor Interface_patch = interface_target"
| "anchor Class_patch = class_target"
| "anchor Lifecycle_patch = target"

fun insertion :: "patch \<Rightarrow> string" where
  "insertion Interface_patch = interface_insert"
| "insertion Class_patch = class_insert"
| "insertion Lifecycle_patch = methods @ [CHR 0x0A]"

fun apply_patch :: "patch \<Rightarrow> string \<Rightarrow> string" where
  "apply_patch Interface_patch content = interface_step content"
| "apply_patch Class_patch content = class_step content"
| "apply_patch Lifecycle_patch content = lifecycle_step content"

text \<open>
  The positions at which \<open>sub\<close> starts in \<open>s\<close>, overlapping ones included. The scripts do
  not compute this; it states how often an anchor occurs in a text.
\<close>

definition occurrences :: "string \<Rightarrow> string \<Rightarrow> nat list" where
  "occurrences sub s = filter (\<lambda>i. prefix sub (drop i s)) [0..<Suc (length s)]"

section \<open>The scripts as transitions of the file system\<close>

text \<open>
  A script reads its file, computes the new text, writes the file and prints a line.
  The world holds the text of every existing file and the sequence of visible effects:
  the writes (path and text written) and the printed lines. The text of a file is what
  \<^verbatim>\<open>read\<close> returns for it and what \<^verbatim>\<open>write\<close> was given for it; what text mode does between
  that text and the bytes on disk (the encoding, the translation of line endings) is
  not part of the model, and neither are failures of the operating system other than a
  missing file.

  A run returns the exception that ended it, if one did, and the world it leaves.
  Opening a missing file for reading raises \<^verbatim>\<open>FileNotFoundError\<close>, which ends the script
  before it writes or prints. A file that Python cannot compile raises \<^verbatim>\<open>SyntaxError\<close>
  before anything runs.
\<close>

datatype py_error = FileNotFoundError string | SyntaxError

datatype event = Wrote string string | Printed string

record world =
  files :: "string \<rightharpoonup> string"
  events :: "event list"

type_synonym run = "py_error option \<times> world"

definition read_text :: "world \<Rightarrow> string \<Rightarrow> py_error + string" where
  "read_text w path = (case files w path of None \<Rightarrow> Inl (FileNotFoundError path) | Some text \<Rightarrow> Inr text)"

definition write_text :: "world \<Rightarrow> string \<Rightarrow> string \<Rightarrow> world" where
  "write_text w path text = w\<lparr>files := (files w)(path \<mapsto> text), events := events w @ [Wrote path text]\<rparr>"

definition print_line :: "world \<Rightarrow> string \<Rightarrow> world" where
  "print_line w line = w\<lparr>events := events w @ [Printed line]\<rparr>"

text \<open>\<^verbatim>\<open>update_repo.py\<close>: read, the two guarded insertions in order, write, print.\<close>

definition update_repo :: "world \<Rightarrow> run" where
  "update_repo w =
     (case read_text w repo_file_path of
        Inl e \<Rightarrow> (Some e, w)
      | Inr content \<Rightarrow>
          (let content1 = interface_step content;
               content2 = class_step content1;
               w1 = write_text w repo_file_path content2
           in (None, print_line w1 ''Updated task-repository.ts'')))"

text \<open>
  The statements of \<^verbatim>\<open>update_lifecycle.py\<close>, with the literal taken as above: read, the
  guarded insertion, write, print.
\<close>

definition update_lifecycle :: "world \<Rightarrow> run" where
  "update_lifecycle w =
     (case read_text w lifecycle_file_path of
        Inl e \<Rightarrow> (Some e, w)
      | Inr content \<Rightarrow>
          (let content1 = lifecycle_step content;
               w1 = write_text w lifecycle_file_path content1
           in (None, print_line w1 ''Updated task-lifecycle-service.ts'')))"

text \<open>
  What an observer sees of a run: the lines printed and the writes made, those before
  the run included, and the files it leaves.
\<close>

fun printed_lines :: "event list \<Rightarrow> string list" where
  "printed_lines [] = []"
| "printed_lines (Printed line # es) = line # printed_lines es"
| "printed_lines (Wrote path text # es) = printed_lines es"

fun writes :: "event list \<Rightarrow> (string \<times> string) list" where
  "writes [] = []"
| "writes (Wrote path text # es) = (path, text) # writes es"
| "writes (Printed line # es) = writes es"

definition stdout_of :: "run \<Rightarrow> string list" where
  "stdout_of r = printed_lines (events (snd r))"

definition writes_of :: "run \<Rightarrow> (string \<times> string) list" where
  "writes_of r = writes (events (snd r))"

definition file_after :: "run \<Rightarrow> string \<Rightarrow> string option" where
  "file_after r path = files (snd r) path"

text \<open>A world with one file and no effects yet.\<close>

definition single_file :: "string \<Rightarrow> string \<Rightarrow> world" where
  "single_file path text = \<lparr>files = [path \<mapsto> text], events = []\<rparr>"

text \<open>
  Running a script on the world a previous run has left, when that run ended without
  an exception.
\<close>

definition and_then :: "run \<Rightarrow> (world \<Rightarrow> run) \<Rightarrow> run" where
  "and_then r script = (case fst r of Some e \<Rightarrow> r | None \<Rightarrow> script (snd r))"

section \<open>The script files and their compilation\<close>

text \<open>
  Python compiles a whole file before it runs the first statement of it. Of the
  compilation the model keeps the lexical structure of comments and string literals:
  a scan over the characters of the file that knows whether it is in code, in a comment,
  in a short string literal (one quote, closed by the same quote on the same line) or in
  a long one (three quotes, closed by the same three quotes, over any number of lines).
  A backslash inside a literal takes the next character with it.
\<close>

datatype lex_state =
    Code | Comment
  | Quote1 char | Quote2 char
  | Short char | Short_esc char
  | Long char | Long_esc char | Long_end1 char | Long_end2 char
  | Unterminated_short

definition code_char :: "char \<Rightarrow> lex_state" where
  "code_char c =
     (if c = CHR ''#'' then Comment
      else if c = CHR 0x22 \<or> c = CHR 0x27 then Quote1 c
      else Code)"

fun lex_step :: "lex_state \<Rightarrow> char \<Rightarrow> lex_state" where
  "lex_step Code c = code_char c"
| "lex_step Comment c = (if c = CHR 0x0A then Code else Comment)"
| "lex_step (Quote1 q) c =
     (if c = q then Quote2 q
      else if c = CHR 0x0A then Unterminated_short
      else if c = CHR 0x5C then Short_esc q
      else Short q)"
| "lex_step (Quote2 q) c = (if c = q then Long q else code_char c)"
| "lex_step (Short q) c =
     (if c = q then Code
      else if c = CHR 0x0A then Unterminated_short
      else if c = CHR 0x5C then Short_esc q
      else Short q)"
| "lex_step (Short_esc q) c = Short q"
| "lex_step (Long q) c =
     (if c = q then Long_end1 q else if c = CHR 0x5C then Long_esc q else Long q)"
| "lex_step (Long_esc q) c = Long q"
| "lex_step (Long_end1 q) c =
     (if c = q then Long_end2 q else if c = CHR 0x5C then Long_esc q else Long q)"
| "lex_step (Long_end2 q) c =
     (if c = q then Code else if c = CHR 0x5C then Long_esc q else Long q)"
| "lex_step Unterminated_short c = Unterminated_short"

definition lex_end :: "string \<Rightarrow> lex_state" where
  "lex_end src = foldl lex_step Code src"

text \<open>At the end of the file every literal must be closed.\<close>

fun literals_closed :: "lex_state \<Rightarrow> bool" where
  "literals_closed Code = True"
| "literals_closed Comment = True"
| "literals_closed (Quote2 q) = True"
| "literals_closed st = False"

text \<open>The text of a file from its lines: a newline between two lines.\<close>

fun join_lines :: "string list \<Rightarrow> string" where
  "join_lines [] = []"
| "join_lines [l] = l"
| "join_lines (l # ls) = l @ CHR 0x0A # join_lines ls"

text \<open>
  Running a script file: the statements run when the scan of the file ends with every
  literal closed, and otherwise nothing runs and the run ends with \<^verbatim>\<open>SyntaxError\<close>.
\<close>

definition run_file :: "string list \<Rightarrow> (world \<Rightarrow> run) \<Rightarrow> world \<Rightarrow> run" where
  "run_file src statements w =
     (if literals_closed (lex_end (join_lines src)) then statements w else (Some SyntaxError, w))"

text \<open>The two files, line by line.\<close>

definition update_repo_source :: "string list" where
  \<open>update_repo_source =
    ['''',
     ''import os'',
     '''',
     ''file_path = ".worktrees/feature-task-1768089767889-rn7jmx/packages/mcp-server/src/state/task-repository.ts"'',
     '''',
     ''with open(file_path, 'r') as f:'',
     ''    content = f.read()'',
     '''',
     ''# Interface insertion'',
     ''interface_target = "  /** Get task history with filtering and search */"'',
     ''interface_insert = """  /** Get all agents that are currently assigned tasks (Active only) */'',
     ''  getBusyAgentIds(): string[];'',
     ''"""'',
     '''',
     ''# Class insertion'',
     ''class_target = "  getHistory(options: { status?: TaskStatus | 'ACTIVE'; limit?: number; offset?: number; agentId?: string; search?: string }): Task[] {"'',
     ''class_insert = """  getBusyAgentIds(): string[] {'',
     ''    const rows = this.database.prepare('',
     ''      `SELECT DISTINCT assignedTo FROM tasks WHERE status IN ('ASSIGNED', 'IN_PROGRESS', 'PENDING_ACK') AND assignedTo IS NOT NULL`'',
     ''    ).all() as any[];'',
     ''    return rows.map(r => r.assignedTo);'',
     ''  }'',
     '''',
     ''"""'',
     '''',
     ''if interface_insert not in content:'',
     ''    content = content.replace(interface_target, interface_insert + interface_target)'',
     ''    '',
     ''if class_insert not in content:'',
     ''    content = content.replace(class_target, class_insert + class_target)'',
     '''',
     ''with open(file_path, 'w') as f:'',
     ''    f.write(content)'',
     ''print("Updated task-repository.ts")'']\<close>

definition update_lifecycle_source :: "string list" where
  \<open>update_lifecycle_source =
    ['''',
     ''import os'',
     '''',
     ''file_path = ".worktrees/feature-task-1768089767889-rn7jmx/packages/mcp-server/src/state/services/task-lifecycle-service.ts"'',
     '''',
     ''with open(file_path, 'r') as f:'',
     ''    content = f.read()'',
     '''',
     ''# Methods to add'',
     ''methods = """'',
     ''  resetStaleTasks(): void {'',
     ''    try {'',
     ''      // Reset PENDING_ACK tasks to QUEUED'',
     ''      const stale = this.repo.getByStatus('PENDING_ACK');'',
     ''      for (const task of stale) {'',
     ''        console.log(`[TaskLifecycle] Resetting PENDING_ACK task ${task.id} to QUEUED on startup`);'',
     ''        this.updateStatus(task.id, 'QUEUED');'',
     ''      }'',
     ''      '',
     ''      // Reset waiting agents'',
     ''      this.persistence.resetWaitingAgents();'',
     ''    } catch (e: any) {'',
     ''      console.error(`[TaskLifecycle] Failed to reset stale state: ${e.message}`);'',
     ''    }'',
     ''  }'',
     '''',
     ''  ackTask(taskId: string, agentId: string): { success: boolean; error?: string } {'',
     ''    const task = this.repo.getById(taskId);'',
     '''',
     ''    if (!task) {'',
     ''      return { success: false, error: 'Task not found' };'',
     ''    }'',
     '''',
     ''    if (task.status !== 'PENDING_ACK') {'',
     ''      return { success: false, error: 'Task is not in PENDING_ACK state' };'',
     ''    }'',
     '''',
     ''    const pendingAck = this.persistence.getPendingAcks().get(taskId);'',
     ''    if (!pendingAck || pendingAck.agentId !== agentId) {'',
     ''      return { success: false, error: `ACK failed: Expected agent ${pendingAck?.agentId} but got ${agentId}` };'',
     ''    }'',
     '''',
     ''    // Success: Transition to ASSIGNED'',
     ''    // Use updateStatus to handle history/logging and assignment'',
     ''    this.updateStatus(taskId, 'ASSIGNED', undefined, agentId);'',
     ''    '',
     ''    // Clear pending ACK flags'',
     ''    this.persistence.clearPendingAck(taskId);'',
     '''',
     ''    console.log(`[TaskLifecycle] Task ${taskId} ACKed by ${agentId}, now ASSIGNED`);'',
     ''    return { success: true };'',
     ''  }'',
     ''"'',
     '''',
     ''target = "  private persistUpdate(task: Task): void {"'',
     '''',
     ''if "ackTask" not in content:'',
     ''    content = content.replace(target, methods + "'' @ [CHR 0x5C] @ ''n" + target)'',
     '''',
     ''with open(file_path, 'w') as f:'',
     ''    f.write(content)'',
     ''print("Updated task-lifecycle-service.ts")'',
     '''',
     '''']\<close>

section \<open>Properties of the string primitives\<close>

lemma replace_scan_absent: "\<not> sublist old s \<Longrightarrow> replace_scan old new s = s"
  by (induction old new s rule: replace_scan.induct) (auto simp: sublist_Cons_right)

lemma replace_scan_present:
  "old \<noteq> [] \<Longrightarrow> sublist old s \<Longrightarrow> sublist new (replace_scan old new s)"
proof (induction old new s rule: replace_scan.induct)
  case (1 old new)
  then show ?case by simp
next
  case (2 old new c cs)
  show ?case
  proof (cases "prefix old (c # cs)")
    case True
    with "2.prems" show ?thesis by simp
  next
    case False
    with "2.prems" have "sublist old cs" by (simp add: sublist_Cons_right)
    with False "2.IH"(2) "2.prems" have "sublist new (replace_scan old new cs)" by simp
    with False show ?thesis by (simp add: sublist_Cons_right)
  qed
qed

lemma replace_scan_length: "length s \<le> length (replace_scan old (ins @ old) s)"
proof (induction old "ins @ old" s rule: replace_scan.induct)
  case (1 old)
  then show ?case by simp
next
  case (2 old c cs)
  show ?case
  proof (cases "old \<noteq> [] \<and> prefix old (c # cs)")
    case True
    then have "length old \<le> length (c # cs)"
      by (auto dest: prefix_length_le)
    then have "length (c # cs) = length old + length (drop (length old) (c # cs))"
      by simp
    with True "2.hyps"(1) show ?thesis by simp
  next
    case False
    with "2.hyps"(2) show ?thesis by auto
  qed
qed

lemma replace_scan_longer:
  "old \<noteq> [] \<Longrightarrow> ins \<noteq> [] \<Longrightarrow> sublist old s \<Longrightarrow> length s < length (replace_scan old (ins @ old) s)"
proof (induction old "ins @ old" s rule: replace_scan.induct)
  case (1 old)
  then show ?case by simp
next
  case (2 old c cs)
  let ?d = "drop (length old) (c # cs)"
  show ?case
  proof (cases "prefix old (c # cs)")
    case True
    then have "length old \<le> length (c # cs)"
      by (auto dest: prefix_length_le)
    then have a: "length (c # cs) = length old + length ?d"
      by simp
    have b: "length ?d \<le> length (replace_scan old (ins @ old) ?d)"
      by (rule replace_scan_length)
    have "replace_scan old (ins @ old) (c # cs) = (ins @ old) @ replace_scan old (ins @ old) ?d"
      using True "2.prems"(1) by simp
    then have c: "length (replace_scan old (ins @ old) (c # cs)) =
        length ins + length old + length (replace_scan old (ins @ old) ?d)"
      by (simp only: length_append)
    have d: "0 < length ins" using "2.prems"(2) by simp
    from a b c d show ?thesis by linarith
  next
    case False
    with "2.prems" have "sublist old cs" by (simp add: sublist_Cons_right)
    with False "2.hyps"(2) "2.prems" show ?thesis by simp
  qed
qed

lemma replace_scan_segment:
  assumes "old \<noteq> []" "\<not> sublist old (g @ butlast old)"
  shows "replace_scan old new (g @ old @ rest) = g @ new @ replace_scan old new rest"
  using assms(2)
proof (induction g)
  case Nil
  from assms(1) obtain c cs where old: "old = c # cs" by (cases old) auto
  have "replace_scan old new (c # cs @ rest) = new @ replace_scan old new (drop (length old) (c # cs @ rest))"
    using assms(1) by (simp add: old)
  then show ?case by (simp add: old)
next
  case (Cons a g)
  have np: "\<not> prefix old (a # g @ old @ rest)"
  proof
    assume p: "prefix old (a # g @ old @ rest)"
    have "a # g @ old @ rest = (a # g @ butlast old) @ ([last old] @ rest)"
      using assms(1) by simp
    with p have "prefix old ((a # g @ butlast old) @ ([last old] @ rest))" by simp
    moreover have "length old \<le> length (a # g @ butlast old)" by simp
    ultimately have "prefix old (a # g @ butlast old)"
      by (metis prefix_length_prefix prefixI)
    with Cons.prems show False by auto
  qed
  from Cons.prems have "\<not> sublist old (g @ butlast old)" by (simp add: sublist_Cons_right)
  with Cons.IH have "replace_scan old new (g @ old @ rest) = g @ new @ replace_scan old new rest" .
  with np show ?case by simp
qed

lemma replace_scan_segments:
  assumes "old \<noteq> []" "\<forall>g\<in>set gs. \<not> sublist old (g @ butlast old)" "\<not> sublist old l"
  shows "replace_scan old new (concat (map (\<lambda>g. g @ old) gs) @ l) = concat (map (\<lambda>g. g @ new) gs) @ l"
  using assms(2)
proof (induction gs)
  case Nil
  with assms(3) show ?case by (simp add: replace_scan_absent)
next
  case (Cons g gs)
  then show ?case using replace_scan_segment [OF assms(1), of g new "concat (map (\<lambda>g. g @ old) gs) @ l"]
    by simp
qed

lemma sublist_iff_drop: "sublist xs ys \<longleftrightarrow> (\<exists>i\<le>length ys. prefix xs (drop i ys))"
proof
  assume "sublist xs ys"
  then obtain ps ss where "ys = ps @ xs @ ss" by (auto simp: sublist_def)
  then have "length ps \<le> length ys \<and> prefix xs (drop (length ps) ys)" by simp
  then show "\<exists>i\<le>length ys. prefix xs (drop i ys)" by blast
next
  assume "\<exists>i\<le>length ys. prefix xs (drop i ys)"
  then obtain i where "prefix xs (drop i ys)" by blast
  then have "sublist xs (drop i ys)" by simp
  then show "sublist xs ys" using sublist_drop sublist_order.order_trans by blast
qed

lemma set_occurrences: "i \<in> set (occurrences sub s) \<longleftrightarrow> i \<le> length s \<and> prefix sub (drop i s)"
  by (simp add: occurrences_def less_Suc_eq_le del: upt_Suc)

lemma occurrences_empty_iff: "occurrences sub s = [] \<longleftrightarrow> \<not> sublist sub s"
  by (metis set_occurrences sublist_iff_drop ex_in_conv set_empty)

lemma sublist_in_left: "sublist x a \<Longrightarrow> sublist x (a @ b)"
  using sublist_order.order_trans sublist_append_rightI by blast

lemma sublist_in_right: "sublist x b \<Longrightarrow> sublist x (a @ b)"
  using sublist_order.order_trans sublist_append_leftI by blast

lemma sublist_unlines: "l \<in> set ls \<Longrightarrow> sublist x l \<Longrightarrow> sublist x (unlines ls)"
proof (induction ls)
  case Nil
  then show ?case by simp
next
  case (Cons a ls)
  have u: "unlines (a # ls) = (a @ [CHR 0x0A]) @ unlines ls"
    by (simp add: unlines_def)
  show ?case
  proof (cases "l = a")
    case True
    with Cons.prems have "sublist x (a @ [CHR 0x0A])"
      by (simp add: sublist_in_left)
    then show ?thesis unfolding u by (rule sublist_in_left)
  next
    case False
    with Cons have "sublist x (unlines ls)" by simp
    then show ?thesis unfolding u by (rule sublist_in_right)
  qed
qed

text \<open>
  A text in which \<open>old\<close> starts at one position only: the scan replaces that block and
  nothing else.
\<close>

lemma single_occurrence_split:
  assumes occ: "occurrences old s = [n]" and ne: "old \<noteq> []"
  shows "replace_scan old new s = take n s @ new @ drop (n + length old) s"
    and "drop n s = old @ drop (n + length old) s"
proof -
  define pre where "pre = take n s"
  define rest where "rest = drop (n + length old) s"
  have uniq: "i = n" if "i \<le> length s" "prefix old (drop i s)" for i
  proof -
    from that have "i \<in> set (occurrences old s)" by (simp add: set_occurrences)
    with occ show ?thesis by simp
  qed
  have "n \<in> set (occurrences old s)" using occ by simp
  then have n: "n \<le> length s" and pn: "prefix old (drop n s)"
    by (simp_all add: set_occurrences)
  from pn obtain zs where zs: "drop n s = old @ zs" by (auto simp: prefix_def)
  then have "drop (length old) (drop n s) = zs" by simp
  then have "zs = rest" by (simp add: rest_def add.commute)
  with zs have dn: "drop n s = old @ rest" by simp
  then show "drop n s = old @ drop (n + length old) s" by (simp add: rest_def)
  have s: "s = pre @ old @ rest"
    using dn append_take_drop_id [of n s] by (simp add: pre_def)
  have lpre: "length pre = n" using n by (simp add: pre_def)
  have a: "\<not> sublist old (pre @ butlast old)"
  proof
    assume "sublist old (pre @ butlast old)"
    then obtain i where i: "i \<le> length (pre @ butlast old)"
      and pi: "prefix old (drop i (pre @ butlast old))"
      by (auto simp: sublist_iff_drop)
    have "old @ rest = butlast old @ ([last old] @ rest)"
      using ne by (metis append_butlast_last_id append_assoc)
    then have sP: "s = (pre @ butlast old) @ ([last old] @ rest)"
      by (simp only: s append_assoc)
    have dis: "drop i s = drop i (pre @ butlast old) @ ([last old] @ rest)"
      using i by (simp only: sP drop_append) simp
    from pi have "prefix old (drop i (pre @ butlast old) @ ([last old] @ rest))"
      by (rule prefix_prefix)
    then have "prefix old (drop i s)" by (simp only: dis)
    moreover have "i \<le> length s" using i by (simp add: s)
    ultimately have "i = n" by (rule uniq [rotated])
    with pi lpre have "prefix old (butlast old)" by simp
    then have "length old \<le> length (butlast old)" by (rule prefix_length_le)
    then have "length old \<le> length old - 1" by (simp only: length_butlast)
    moreover have "0 < length old" using ne by simp
    ultimately show False by linarith
  qed
  have b: "\<not> sublist old rest"
  proof
    assume "sublist old rest"
    then obtain j where j: "j \<le> length rest" and pj: "prefix old (drop j rest)"
      by (auto simp: sublist_iff_drop)
    have "drop (length pre + length old + j) s = drop j rest"
      by (simp add: s)
    with pj have "prefix old (drop (length pre + length old + j) s)" by simp
    moreover have "length pre + length old + j \<le> length s" using j by (simp add: s)
    ultimately have "length pre + length old + j = n" by (rule uniq [rotated])
    with ne lpre show False by simp
  qed
  have "replace_scan old new (pre @ old @ rest) = pre @ new @ replace_scan old new rest"
    using ne a by (rule replace_scan_segment)
  with b have "replace_scan old new (pre @ old @ rest) = pre @ new @ rest"
    by (simp add: replace_scan_absent)
  then have "replace_scan old new s = pre @ new @ rest"
    by (simp only: s [symmetric])
  then show "replace_scan old new s = take n s @ new @ drop (n + length old) s"
    by (simp only: pre_def rest_def)
qed

lemma not_sublist_butlast: "xs \<noteq> [] \<Longrightarrow> \<not> sublist xs (butlast xs)"
  by (auto dest!: sublist_length_le simp: length_butlast) (cases xs; simp)

text \<open>
  How the replacement of one patch treats a block of text that belongs to another: a
  block that no anchor can cut stays, and a block that cannot share an edge with the
  insertion does not come into being.
\<close>

lemma sublist_append_cases:
  assumes "sublist x (a @ b)"
  obtains "sublist x a" | "sublist x b"
    | x1 x2 where "x = x1 @ x2" "suffix x1 a" "prefix x2 b" "x1 \<noteq> []" "x2 \<noteq> []"
proof -
  from assms have "sublist x a \<or> sublist x b \<or>
      (\<exists>x1 x2. x = x1 @ x2 \<and> suffix x1 a \<and> prefix x2 b)"
    by (simp only: sublist_append)
  then show thesis
  proof (elim disjE exE conjE)
    fix x1 x2
    assume s: "x = x1 @ x2" "suffix x1 a" "prefix x2 b"
    show thesis
    proof (cases "x1 = []")
      case True
      with s have "sublist x b" by simp
      then show ?thesis by (rule that(2))
    next
      case x1: False
      show ?thesis
      proof (cases "x2 = []")
        case True
        with s have "sublist x a" by simp
        then show ?thesis by (rule that(1))
      next
        case False
        with s x1 show ?thesis by (intro that(3))
      qed
    qed
  qed (fact that(1), fact that(2))
qed

lemma replace_scan_keeps_prefix:
  assumes "last y \<notin> set old" "\<not> sublist old y"
  shows "y \<noteq> [] \<Longrightarrow> prefix y s \<Longrightarrow> prefix y (replace_scan old new s)"
  using assms
proof (induction y arbitrary: s)
  case Nil
  then show ?case by simp
next
  case (Cons c y)
  from Cons.prems(2) obtain cs where s: "s = c # cs" and p: "prefix y cs"
    by (cases s) auto
  have np: "\<not> prefix old (c # cs)"
  proof
    assume po: "prefix old (c # cs)"
    from Cons.prems(2) have py: "prefix (c # y) (c # cs)" by (simp add: s)
    from po py have "prefix old (c # y) \<or> prefix (c # y) old"
      using prefix_same_cases by blast
    then show False
    proof
      assume "prefix old (c # y)"
      with Cons.prems(4) show False by auto
    next
      assume "prefix (c # y) old"
      then have "set (c # y) \<subseteq> set old" by (auto simp: prefix_def)
      moreover have "last (c # y) \<in> set (c # y)" by (rule last_in_set) simp
      ultimately show False using Cons.prems(3) by blast
    qed
  qed
  show ?case
  proof (cases "y = []")
    case True
    with np show ?thesis by (simp add: s)
  next
    case False
    with Cons.prems(3) have "last y \<notin> set old" by simp
    moreover from Cons.prems(4) have "\<not> sublist old y"
      by (auto simp: sublist_Cons_right)
    ultimately have "prefix y (replace_scan old new cs)"
      using Cons.IH [OF False p] by simp
    with np show ?thesis by (simp add: s)
  qed
qed

lemma replace_scan_keeps_block:
  "x \<noteq> [] \<Longrightarrow> last x \<notin> set old \<Longrightarrow> \<not> sublist old x \<Longrightarrow> sublist x s \<Longrightarrow>
     sublist x (replace_scan old (ins @ old) s)"
proof (induction old "ins @ old" s rule: replace_scan.induct)
  case (1 old)
  then show ?case by simp
next
  case (2 old c cs)
  note x = "2.prems"(1) and l = "2.prems"(2) and n = "2.prems"(3)
  show ?case
  proof (cases "prefix x (c # cs)")
    case True
    then have "prefix x (replace_scan old (ins @ old) (c # cs))"
      using replace_scan_keeps_prefix [OF l n x] by blast
    then show ?thesis by (rule prefix_imp_sublist)
  next
    case nx: False
    with "2.prems"(4) have xcs: "sublist x cs" by (simp add: sublist_Cons_right)
    show ?thesis
    proof (cases "old \<noteq> [] \<and> prefix old (c # cs)")
      case False
      with "2.hyps"(2) xcs x l n have "sublist x (replace_scan old (ins @ old) cs)" by blast
      then have "sublist x (c # replace_scan old (ins @ old) cs)"
        by (simp only: sublist_Cons_right) simp
      moreover have "replace_scan old (ins @ old) (c # cs) = c # replace_scan old (ins @ old) cs"
        using False by auto
      ultimately show ?thesis by (simp only:)
    next
      case True
      then obtain s' where s': "c # cs = old @ s'" by (auto simp: prefix_def)
      then have d: "drop (length old) (c # cs) = s'" by simp
      have r: "replace_scan old (ins @ old) (c # cs) = ins @ old @ replace_scan old (ins @ old) s'"
        using True d by simp
      from "2.prems"(4) have "sublist x (old @ s')" by (simp only: s')
      then consider "sublist x old" | "sublist x s'"
        | x1 x2 where "x = x1 @ x2" "suffix x1 old" "prefix x2 s'" "x1 \<noteq> []" "x2 \<noteq> []"
        by (rule sublist_append_cases)
      then have "sublist x (old @ replace_scan old (ins @ old) s')"
      proof cases
        case 1
        then show ?thesis by (rule sublist_in_left)
      next
        case 2
        with "2.hyps"(1) True x l n have "sublist x (replace_scan old (ins @ old) s')"
          unfolding d by blast
        then show ?thesis by (rule sublist_in_right)
      next
        case 3
        from 3(5) have "last x = last x2" unfolding 3(1) by (rule last_appendR)
        with l have "last x2 \<notin> set old" by simp
        moreover have "sublist x2 x" unfolding 3(1) by (rule sublist_append_leftI)
        with n have "\<not> sublist old x2"
          using sublist_order.order_trans by blast
        ultimately have "prefix x2 (replace_scan old (ins @ old) s')"
          using replace_scan_keeps_prefix 3(3,5) by blast
        then obtain v where v: "replace_scan old (ins @ old) s' = x2 @ v"
          by (auto simp: prefix_def)
        from 3(2) obtain u where u: "old = u @ x1" by (auto simp: suffix_def)
        have "old @ replace_scan old (ins @ old) s' = u @ x @ v"
          by (simp only: v 3(1) append_assoc) (simp add: u)
        then show ?thesis by (simp only: sublist_appendI)
      qed
      then show ?thesis unfolding r by (rule sublist_in_right)
    qed
  qed
qed

lemma block_not_in_insertion:
  assumes "x \<noteq> []" "last x \<notin> set ins" "sublist x (pre @ ins)"
  shows "sublist x pre"
  using assms(3)
proof (cases rule: sublist_append_cases)
  case 1
  then show ?thesis .
next
  case 2
  then have "set x \<subseteq> set ins" by (rule set_mono_sublist)
  moreover have "last x \<in> set x" using assms(1) by (rule last_in_set)
  ultimately show ?thesis using assms(2) by blast
next
  case (3 x1 x2)
  from 3(3) have "set x2 \<subseteq> set ins" by (auto simp: prefix_def)
  moreover have "last x2 \<in> set x2" using 3(5) by (rule last_in_set)
  moreover from 3(5) have "last x = last x2" unfolding 3(1) by (rule last_appendR)
  ultimately show ?thesis using assms(2) by auto
qed

lemma replace_scan_makes_no_block:
  "x \<noteq> [] \<Longrightarrow> ins \<noteq> [] \<Longrightarrow> last x \<notin> set ins \<Longrightarrow> last ins \<notin> set x \<Longrightarrow>
     sublist x (pre @ replace_scan old (ins @ old) s) \<Longrightarrow> sublist x (pre @ s)"
proof (induction old "ins @ old" s arbitrary: pre rule: replace_scan.induct)
  case (1 old)
  then show ?case by simp
next
  case (2 old c cs)
  note x = "2.prems"(1) and i = "2.prems"(2) and lx = "2.prems"(3) and li = "2.prems"(4)
  show ?case
  proof (cases "old \<noteq> [] \<and> prefix old (c # cs)")
    case False
    then have "replace_scan old (ins @ old) (c # cs) = c # replace_scan old (ins @ old) cs"
      by auto
    with "2.prems"(5) have "sublist x ((pre @ [c]) @ replace_scan old (ins @ old) cs)"
      by simp
    with "2.hyps"(2) False x i lx li have "sublist x ((pre @ [c]) @ cs)" by blast
    then show ?thesis by simp
  next
    case True
    then obtain s' where s': "c # cs = old @ s'" by (auto simp: prefix_def)
    then have d: "drop (length old) (c # cs) = s'" by simp
    have "replace_scan old (ins @ old) (c # cs) = ins @ old @ replace_scan old (ins @ old) s'"
      using True d by simp
    with "2.prems"(5) have "sublist x ((pre @ ins) @ (old @ replace_scan old (ins @ old) s'))"
      by simp
    then have "sublist x pre \<or> sublist x (old @ replace_scan old (ins @ old) s')"
    proof (cases rule: sublist_append_cases)
      case 1
      with x lx show ?thesis by (auto dest: block_not_in_insertion)
    next
      case 2
      then show ?thesis by simp
    next
      case (3 x1 x2)
      from 3(2) i obtain u where "pre @ ins = u @ x1" by (auto simp: suffix_def)
      with 3(4) i have "last x1 = last ins"
        by (metis last_appendR)
      moreover have "last x1 \<in> set x1" using 3(4) by (rule last_in_set)
      ultimately have "last ins \<in> set x" unfolding 3(1) by simp
      with li show ?thesis by simp
    qed
    then show ?thesis
    proof
      assume "sublist x pre"
      then show ?thesis by (rule sublist_in_left)
    next
      assume "sublist x (old @ replace_scan old (ins @ old) s')"
      with "2.hyps"(1) True x i lx li have "sublist x (old @ s')"
        unfolding d by blast
      then show ?thesis unfolding s' by (rule sublist_in_right)
    qed
  qed
qed

section \<open>Properties of the guarded insertions\<close>

lemma ack_in_methods: "str_in ''ackTask'' methods"
proof -
  have "sublist ''ackTask'' ''  ackTask(taskId: string, agentId: string): { success: boolean; error?: string } {''"
    by (simp add: sublist_Cons_right)
  then have "sublist ''ackTask'' (tl methods)"
    unfolding methods_def list.sel by (rule sublist_unlines [rotated]) simp
  then show ?thesis
    using sublist_order.order_trans sublist_tl by blast
qed

lemma anchor_nonempty: "anchor p \<noteq> []"
  by (cases p) (simp_all add: interface_target_def class_target_def target_def)

lemma insertion_nonempty: "insertion p \<noteq> []"
  by (cases p) (simp_all add: interface_insert_def class_insert_def unlines_def)

lemma marker_in_insertion: "str_in (marker p) (insertion p)"
  by (cases p) (simp_all add: ack_in_methods sublist_in_left)

lemma apply_patch_guarded:
  "apply_patch p content = guarded_insert (marker p) (anchor p) (insertion p) content"
  by (cases p) (simp_all add: interface_step_def class_step_def lifecycle_step_def guarded_insert_def)

lemma apply_patch_run:
  "\<not> str_in (marker p) content \<Longrightarrow>
     apply_patch p content = replace_scan (anchor p) (insertion p @ anchor p) content"
  using anchor_nonempty [of p] by (simp add: apply_patch_guarded guarded_insert_def str_replace_def)

lemma apply_patch_skip: "str_in (marker p) content \<Longrightarrow> apply_patch p content = content"
  by (simp add: apply_patch_guarded guarded_insert_def)

lemma apply_patch_absent: "\<not> str_in (anchor p) content \<Longrightarrow> apply_patch p content = content"
  by (cases "str_in (marker p) content") (simp_all add: apply_patch_skip apply_patch_run replace_scan_absent)

lemma length_apply_patch: "length content \<le> length (apply_patch p content)"
  by (cases "str_in (marker p) content") (simp_all add: apply_patch_skip apply_patch_run replace_scan_length)

lemma apply_patch_inserts:
  assumes "\<not> str_in (marker p) content" "str_in (anchor p) content"
  shows "str_in (insertion p @ anchor p) (apply_patch p content)"
    and "length content < length (apply_patch p content)"
  using assms anchor_nonempty [of p] insertion_nonempty [of p]
  by (simp_all add: apply_patch_run replace_scan_present replace_scan_longer)

lemma apply_patch_changes:
  "apply_patch p content \<noteq> content \<longleftrightarrow> \<not> str_in (marker p) content \<and> str_in (anchor p) content"
  using apply_patch_skip [of p content] apply_patch_absent [of p content]
    apply_patch_inserts(2) [of p content] by auto

lemma marker_after_apply:
  "str_in (marker p) (apply_patch p content) \<longleftrightarrow> str_in (marker p) content \<or> str_in (anchor p) content"
proof (cases "str_in (marker p) content")
  case True
  then show ?thesis by (simp add: apply_patch_skip)
next
  case nm: False
  show ?thesis
  proof (cases "str_in (anchor p) content")
    case True
    with nm have "str_in (insertion p @ anchor p) (apply_patch p content)"
      by (rule apply_patch_inserts(1))
    moreover have "str_in (marker p) (insertion p @ anchor p)"
      by (simp add: marker_in_insertion sublist_in_left)
    ultimately have "str_in (marker p) (apply_patch p content)"
      using sublist_order.order_trans by blast
    with True show ?thesis by simp
  next
    case False
    with nm show ?thesis by (simp add: apply_patch_absent)
  qed
qed

text \<open>
  The text of the interface anchor alone holds none of the insertions and not the class
  anchor: it is shorter than each of them.
\<close>

lemma interface_target_free:
  "\<not> str_in interface_insert interface_target"
  "\<not> str_in class_insert interface_target"
  "\<not> str_in class_target interface_target"
  by (auto dest!: sublist_length_le simp: interface_insert_def class_insert_def class_target_def interface_target_def unlines_def)

text \<open>Facts about some small texts built from the constants of the scripts.\<close>

lemma witness_text_occurrences:
  "occurrences interface_target (''a'' @ interface_target @ ''b'') = [1]"
  unfolding interface_target_def occurrences_def by code_simp

lemma witness_text_free:
  "\<not> str_in interface_insert (''a'' @ interface_target @ ''b'')"
  by (auto dest!: sublist_length_le simp: interface_insert_def interface_target_def unlines_def)

lemma class_target_free:
  "\<not> str_in interface_target class_target"
  "\<not> str_in class_insert class_target"
  "\<not> str_in interface_insert class_target"
  subgoal unfolding interface_target_def class_target_def by code_simp
  subgoal by (auto dest!: sublist_length_le simp: class_insert_def class_target_def unlines_def)
  subgoal unfolding interface_insert_def class_target_def unlines_def by code_simp
  done

lemma two_anchors_free:
  "\<not> str_in interface_insert (interface_target @ interface_target)"
  unfolding interface_insert_def interface_target_def unlines_def by code_simp

lemma two_anchor_text_free:
  "\<not> str_in interface_target (''a'' @ butlast interface_target)"
  "\<not> str_in interface_target (''b'' @ butlast interface_target)"
  "\<not> str_in interface_target ''c''"
  "\<not> str_in interface_insert (''a'' @ interface_target @ ''b'' @ interface_target @ ''c'')"
  unfolding interface_insert_def interface_target_def unlines_def by code_simp+

lemma sample_text_free:
  "\<not> str_in interface_target ''class A {}''"
  "\<not> str_in class_target ''class A {}''"
  "\<not> str_in target ''class A {}''"
  "\<not> str_in interface_insert ''class A {}''"
  "\<not> str_in class_insert ''class A {}''"
  "\<not> str_in ''ackTask'' ''class A {}''"
  unfolding interface_insert_def class_insert_def class_target_def interface_target_def target_def
    unlines_def
  by code_simp+

lemma inserted_interface_free:
  "\<not> str_in class_target (interface_insert @ interface_target)"
  unfolding interface_insert_def class_target_def interface_target_def unlines_def by code_simp

lemma apply_patch_anchor_alone:
  assumes "\<not> str_in (marker p) (anchor p)"
  shows "apply_patch p (anchor p) = insertion p @ anchor p"
proof -
  have "\<not> sublist (anchor p) ([] @ butlast (anchor p))"
    using not_sublist_butlast [OF anchor_nonempty [of p]] by simp
  with anchor_nonempty [of p]
  have "replace_scan (anchor p) (insertion p @ anchor p) ([] @ anchor p @ [])
      = [] @ (insertion p @ anchor p) @ replace_scan (anchor p) (insertion p @ anchor p) []"
    by (rule replace_scan_segment)
  with assms show ?thesis by (simp add: apply_patch_run)
qed


text \<open>
  The two patches of \<^verbatim>\<open>update_repo.py\<close> do not disturb each other, so a second run finds
  the text settled.
\<close>

lemma constants_share_no_edge:
  "last interface_insert \<notin> set class_target"
  "\<not> str_in class_target interface_insert"
  "last interface_target \<notin> set class_insert"
  "last class_insert \<notin> set interface_target"
  unfolding interface_insert_def class_insert_def interface_target_def class_target_def unlines_def
  by code_simp+

lemma interface_marker_survives_class:
  assumes "str_in interface_insert content"
  shows "str_in interface_insert (class_step content)"
proof (cases "str_in class_insert content")
  case True
  with assms show ?thesis by (simp add: class_step_def)
next
  case False
  then have "class_step content = replace_scan class_target (class_insert @ class_target) content"
    using apply_patch_run [of Class_patch content] by simp
  moreover have "sublist interface_insert (replace_scan class_target (class_insert @ class_target) content)"
  proof (rule replace_scan_keeps_block)
    show "interface_insert \<noteq> []" using insertion_nonempty [of Interface_patch] by simp
  qed (fact constants_share_no_edge(1), fact constants_share_no_edge(2), fact assms)
  ultimately show ?thesis by simp
qed

lemma interface_anchor_not_made_by_class:
  assumes "\<not> str_in interface_target content"
  shows "\<not> str_in interface_target (class_step content)"
proof (cases "str_in class_insert content")
  case True
  with assms show ?thesis by (simp add: class_step_def)
next
  case False
  then have c: "class_step content = replace_scan class_target (class_insert @ class_target) content"
    using apply_patch_run [of Class_patch content] by simp
  show ?thesis
  proof
    assume "str_in interface_target (class_step content)"
    then have "sublist interface_target ([] @ replace_scan class_target (class_insert @ class_target) content)"
      by (simp add: c)
    moreover have "interface_target \<noteq> []" using anchor_nonempty [of Interface_patch] by simp
    moreover have "class_insert \<noteq> []" using insertion_nonempty [of Class_patch] by simp
    ultimately have "sublist interface_target ([] @ content)"
      using constants_share_no_edge(3,4)
      by (rule replace_scan_makes_no_block [rotated 4])
    with assms show False by simp
  qed
qed

lemma apply_patch_twice: "apply_patch p (apply_patch p content) = apply_patch p content"
proof (cases "str_in (marker p) content \<or> str_in (anchor p) content")
  case True
  then have "str_in (marker p) (apply_patch p content)" by (simp only: marker_after_apply)
  then show ?thesis by (rule apply_patch_skip)
next
  case False
  then have "apply_patch p content = content" by (simp add: apply_patch_absent)
  then show ?thesis by (simp only:)
qed

section \<open>Properties of the scripts\<close>

lemma update_repo_result:
  assumes "files w repo_file_path = Some content"
  shows "update_repo w = (None, \<lparr>files = (files w)(repo_file_path \<mapsto> class_step (interface_step content)),
           events = events w @ [Wrote repo_file_path (class_step (interface_step content)),
                                Printed ''Updated task-repository.ts'']\<rparr>)"
  using assms by (simp add: update_repo_def read_text_def write_text_def print_line_def Let_def)

lemma update_repo_missing:
  "files w repo_file_path = None \<Longrightarrow> update_repo w = (Some (FileNotFoundError repo_file_path), w)"
  by (simp add: update_repo_def read_text_def)

lemma writes_append: "writes (es @ fs) = writes es @ writes fs"
  by (induction es rule: writes.induct) simp_all

lemma printed_lines_append: "printed_lines (es @ fs) = printed_lines es @ printed_lines fs"
  by (induction es rule: printed_lines.induct) simp_all

lemma and_then_None: "and_then (None, w) script = script w"
  by (simp add: and_then_def)

lemma file_after_same:
  "files w p = Some content \<Longrightarrow>
     file_after (e, \<lparr>files = (files w)(p \<mapsto> content), events = es\<rparr>) path = files w path"
  by (simp add: file_after_def)

lemma update_repo_single_file:
  "update_repo (single_file repo_file_path t)
     = (None, \<lparr>files = [repo_file_path \<mapsto> class_step (interface_step t)],
               events = [Wrote repo_file_path (class_step (interface_step t)),
                         Printed ''Updated task-repository.ts'']\<rparr>)"
  using update_repo_result [of "single_file repo_file_path t" t] by (simp add: single_file_def)

lemma single_file_simps:
  "files (single_file p t) = [p \<mapsto> t]" "events (single_file p t) = []"
  by (simp_all add: single_file_def)

text \<open>
  \<^verbatim>\<open>update_repo.py\<close> closes all its literals, so a run of the file is a run of its
  statements.
\<close>

lemma update_repo_runs: "run_file update_repo_source update_repo w = update_repo w"
proof -
  have "lex_end (join_lines update_repo_source) = Code" by code_simp
  then show ?thesis by (simp add: run_file_def)
qed

text \<open>The constants of the model are the literals of the files.\<close>

lemma literals_of_the_files:
  "update_repo_source ! 3 = ''file_path = '' @ [CHR 0x22] @ repo_file_path @ [CHR 0x22]"
  "update_repo_source ! 9 = ''interface_target = '' @ [CHR 0x22] @ interface_target @ [CHR 0x22]"
  "update_repo_source ! 15 = ''class_target = '' @ [CHR 0x22] @ class_target @ [CHR 0x22]"
  "unlines (take 3 (drop 10 update_repo_source))
     = ''interface_insert = '' @ [CHR 0x22, CHR 0x22, CHR 0x22] @ interface_insert @ [CHR 0x22, CHR 0x22, CHR 0x22, CHR 0x0A]"
  "unlines (take 8 (drop 16 update_repo_source))
     = ''class_insert = '' @ [CHR 0x22, CHR 0x22, CHR 0x22] @ class_insert @ [CHR 0x22, CHR 0x22, CHR 0x22, CHR 0x0A]"
  "update_lifecycle_source ! 3 = ''file_path = '' @ [CHR 0x22] @ lifecycle_file_path @ [CHR 0x22]"
  "update_lifecycle_source ! 54 = ''target = '' @ [CHR 0x22] @ target @ [CHR 0x22]"
  "unlines (take 43 (drop 9 update_lifecycle_source))
     = ''methods = '' @ [CHR 0x22, CHR 0x22, CHR 0x22] @ methods"
  by code_simp+

lemma update_repo_text_settled:
  "class_step (interface_step (class_step (interface_step content))) = class_step (interface_step content)"
proof -
  define c1 where "c1 = interface_step content"
  define c2 where "c2 = class_step c1"
  have "str_in interface_insert c1 \<or> \<not> str_in interface_target c1"
  proof (cases "str_in interface_insert content \<or> str_in interface_target content")
    case True
    then have "str_in (marker Interface_patch) (apply_patch Interface_patch content)"
      using marker_after_apply [of Interface_patch content] by simp
    then show ?thesis by (simp add: c1_def)
  next
    case False
    then have "\<not> str_in (anchor Interface_patch) content" by simp
    then have "apply_patch Interface_patch content = content" by (rule apply_patch_absent)
    then have "c1 = content" by (simp add: c1_def)
    with False show ?thesis by blast
  qed
  then have "str_in interface_insert c2 \<or> \<not> str_in interface_target c2"
    unfolding c2_def
    using interface_marker_survives_class [of c1] interface_anchor_not_made_by_class [of c1]
    by blast
  then have "interface_step c2 = c2"
  proof
    assume "str_in interface_insert c2"
    then have "str_in (marker Interface_patch) c2" by simp
    then have "apply_patch Interface_patch c2 = c2" by (rule apply_patch_skip)
    then show ?thesis by simp
  next
    assume "\<not> str_in interface_target c2"
    then have "\<not> str_in (anchor Interface_patch) c2" by simp
    then have "apply_patch Interface_patch c2 = c2" by (rule apply_patch_absent)
    then show ?thesis by simp
  qed
  moreover have "class_step c2 = c2"
    unfolding c2_def using apply_patch_twice [of Class_patch c1] by simp
  ultimately have "class_step (interface_step c2) = c2" by (simp only:)
  then show ?thesis by (simp only: c2_def c1_def)
qed

text \<open>Two runs of \<^verbatim>\<open>update_repo.py\<close> in a row, on a file that exists.\<close>

lemma update_repo_two_runs:
  assumes "files w repo_file_path = Some content"
  shows "and_then (update_repo w) update_repo =
     (None, \<lparr>files = (files w)(repo_file_path \<mapsto> class_step (interface_step content)),
             events = events w @ [Wrote repo_file_path (class_step (interface_step content)),
                                  Printed ''Updated task-repository.ts'',
                                  Wrote repo_file_path (class_step (interface_step content)),
                                  Printed ''Updated task-repository.ts'']\<rparr>)"
proof -
  define c2 where "c2 = class_step (interface_step content)"
  define w1 where "w1 = \<lparr>files = (files w)(repo_file_path \<mapsto> c2),
         events = events w @ [Wrote repo_file_path c2, Printed ''Updated task-repository.ts'']\<rparr>"
  have r1: "update_repo w = (None, w1)"
    unfolding w1_def c2_def by (rule update_repo_result [OF assms])
  have "files w1 repo_file_path = Some c2" by (simp add: w1_def)
  then have "update_repo w1 = (None, \<lparr>files = (files w1)(repo_file_path \<mapsto> class_step (interface_step c2)),
         events = events w1 @ [Wrote repo_file_path (class_step (interface_step c2)),
                              Printed ''Updated task-repository.ts'']\<rparr>)"
    by (rule update_repo_result)
  moreover have "class_step (interface_step c2) = c2"
    unfolding c2_def by (rule update_repo_text_settled)
  ultimately have "and_then (update_repo w) update_repo =
     (None, \<lparr>files = (files w)(repo_file_path \<mapsto> c2),
             events = events w @ [Wrote repo_file_path c2, Printed ''Updated task-repository.ts'',
                                  Wrote repo_file_path c2, Printed ''Updated task-repository.ts'']\<rparr>)"
    by (simp add: r1 and_then_None w1_def)
  then show ?thesis by (simp only: c2_def)
qed

section \<open>The claims\<close>

text \<open>
  C1, as the scripts have it. On the file that holds the interface anchor and nothing
  else, the first run of \<^verbatim>\<open>update_repo.py\<close> makes the interface insertion. The second
  run then finds the marker, skips the insertion and leaves the text as it is, and it
  prints \<^verbatim>\<open>Updated task-repository.ts\<close>, the line of the first run, once more. The skip
  of an insertion already made is not reported.
\<close>

theorem second_run_not_reported:
  "\<not> str_in (marker Interface_patch) interface_target
   \<and> str_in (anchor Interface_patch) interface_target
   \<and> apply_patch Interface_patch interface_target = interface_insert @ interface_target
   \<and> str_in (marker Interface_patch) (apply_patch Interface_patch interface_target)
   \<and> file_after (update_repo (single_file repo_file_path interface_target)) repo_file_path
       = Some (interface_insert @ interface_target)
   \<and> stdout_of (update_repo (single_file repo_file_path interface_target))
       = [''Updated task-repository.ts'']
   \<and> file_after (and_then (update_repo (single_file repo_file_path interface_target)) update_repo)
         repo_file_path
       = Some (interface_insert @ interface_target)
   \<and> stdout_of (and_then (update_repo (single_file repo_file_path interface_target)) update_repo)
       = [''Updated task-repository.ts'', ''Updated task-repository.ts'']"
proof -
  have a: "apply_patch Interface_patch interface_target = interface_insert @ interface_target"
    using apply_patch_anchor_alone [of Interface_patch] interface_target_free by simp
  have "apply_patch Class_patch (interface_insert @ interface_target) = interface_insert @ interface_target"
    using apply_patch_absent [of Class_patch "interface_insert @ interface_target"] inserted_interface_free
    by simp
  with a have s: "class_step (interface_step interface_target) = interface_insert @ interface_target"
    by simp
  have f: "files (single_file repo_file_path interface_target) repo_file_path = Some interface_target"
    by (simp add: single_file_simps)
  have m: "str_in interface_insert (interface_insert @ interface_target)"
    by (rule sublist_append_rightI)
  have once: "file_after (update_repo (single_file repo_file_path interface_target)) repo_file_path
       = Some (interface_insert @ interface_target)"
    "stdout_of (update_repo (single_file repo_file_path interface_target))
       = [''Updated task-repository.ts'']"
    by (simp_all add: update_repo_single_file s stdout_of_def file_after_def)
  have twice: "file_after (and_then (update_repo (single_file repo_file_path interface_target)) update_repo)
         repo_file_path
       = Some (interface_insert @ interface_target)"
    "stdout_of (and_then (update_repo (single_file repo_file_path interface_target)) update_repo)
       = [''Updated task-repository.ts'', ''Updated task-repository.ts'']"
    by (simp_all add: update_repo_two_runs [OF f] s stdout_of_def file_after_def single_file_simps)
  have "str_in (marker Interface_patch) (apply_patch Interface_patch interface_target)"
    unfolding a using m by simp
  with a once twice interface_target_free(1) show ?thesis by simp
qed

text \<open>
  C1, amended. For every text and each of the three patches, applying the patch to the
  result of applying it once leaves the text unchanged, so applying twice yields the
  same text as applying once. The second application is skipped by the marker exactly
  when the text held the marker or the anchor at the start, in particular whenever the
  first application inserted (the marker absent and the anchor present, where the first
  application changes the text). A second run of \<^verbatim>\<open>update_repo.py\<close> leaves every file
  as the first run left it. No outcome is reported: on a file that exists, the first
  run and the second each print the one line \<^verbatim>\<open>Updated task-repository.ts\<close>.
\<close>

theorem patch_twice_same_text:
  "apply_patch p (apply_patch p t) = apply_patch p t
   \<and> (str_in (marker p) (apply_patch p t) \<longleftrightarrow> str_in (marker p) t \<or> str_in (anchor p) t)
   \<and> (\<not> str_in (marker p) t \<and> str_in (anchor p) t \<longrightarrow>
        apply_patch p t \<noteq> t \<and> str_in (marker p) (apply_patch p t))
   \<and> file_after (and_then (update_repo w) update_repo) path = file_after (update_repo w) path
   \<and> (files w repo_file_path = Some content \<longrightarrow>
        stdout_of (update_repo w) = printed_lines (events w) @ [''Updated task-repository.ts'']
      \<and> stdout_of (and_then (update_repo w) update_repo)
          = printed_lines (events w) @ [''Updated task-repository.ts'', ''Updated task-repository.ts''])"
proof -
  have one: "apply_patch p (apply_patch p t) = apply_patch p t" by (rule apply_patch_twice)
  have two: "str_in (marker p) (apply_patch p t) \<longleftrightarrow> str_in (marker p) t \<or> str_in (anchor p) t"
    by (rule marker_after_apply)
  have three: "apply_patch p t \<noteq> t \<and> str_in (marker p) (apply_patch p t)"
    if "\<not> str_in (marker p) t \<and> str_in (anchor p) t"
    using that apply_patch_changes [of p t] marker_after_apply [of p t] by blast
  have four: "file_after (and_then (update_repo w) update_repo) path = file_after (update_repo w) path"
  proof (cases "files w repo_file_path")
    case None
    then show ?thesis by (simp add: update_repo_missing and_then_def)
  next
    case (Some c)
    have "file_after (and_then (update_repo w) update_repo) path
        = ((files w)(repo_file_path \<mapsto> class_step (interface_step c))) path"
      by (simp add: update_repo_two_runs [OF Some] file_after_def)
    moreover have "file_after (update_repo w) path
        = ((files w)(repo_file_path \<mapsto> class_step (interface_step c))) path"
      by (simp add: update_repo_result [OF Some] file_after_def)
    ultimately show ?thesis by (simp only:)
  qed
  have five: "stdout_of (update_repo w) = printed_lines (events w) @ [''Updated task-repository.ts'']
      \<and> stdout_of (and_then (update_repo w) update_repo)
          = printed_lines (events w) @ [''Updated task-repository.ts'', ''Updated task-repository.ts'']"
    if f: "files w repo_file_path = Some content"
  proof
    show "stdout_of (update_repo w) = printed_lines (events w) @ [''Updated task-repository.ts'']"
      by (simp add: update_repo_result [OF f] stdout_of_def printed_lines_append)
    show "stdout_of (and_then (update_repo w) update_repo)
          = printed_lines (events w) @ [''Updated task-repository.ts'', ''Updated task-repository.ts'']"
      by (simp add: update_repo_two_runs [OF f] stdout_of_def printed_lines_append)
  qed
  from one two three four five show ?thesis by blast
qed

theorem patch_twice_same_text_witness:
  "\<not> str_in (marker Interface_patch) interface_target
   \<and> str_in (anchor Interface_patch) interface_target
   \<and> apply_patch Interface_patch interface_target \<noteq> interface_target
   \<and> str_in (marker Interface_patch) (apply_patch Interface_patch interface_target)
   \<and> apply_patch Interface_patch (apply_patch Interface_patch interface_target)
       = apply_patch Interface_patch interface_target
   \<and> files (single_file repo_file_path interface_target) repo_file_path = Some interface_target
   \<and> stdout_of (update_repo (single_file repo_file_path interface_target))
       = [''Updated task-repository.ts'']
   \<and> stdout_of (and_then (update_repo (single_file repo_file_path interface_target)) update_repo)
       = [''Updated task-repository.ts'', ''Updated task-repository.ts'']"
  using patch_twice_same_text [of Interface_patch interface_target
      "single_file repo_file_path interface_target" repo_file_path interface_target]
    interface_target_free(1)
  by (simp add: single_file_simps del: apply_patch.simps)

text \<open>
  C2. \<^verbatim>\<open>update_lifecycle.py\<close> is not a Python program that runs. After line 10 the
  scan of the file is inside the long literal opened there; line 53 is one double quote
  and no line after line 10 holds three double quotes in a row, and the scan reaches
  the end of the file still inside the literal. So for every content of the file system
  the run ends with \<^verbatim>\<open>SyntaxError\<close> and leaves the world as it found it: no statement
  runs, nothing is read, written or printed.
\<close>

theorem update_lifecycle_never_runs:
  "lex_end (join_lines (take 10 update_lifecycle_source)) = Long (CHR 0x22)
   \<and> update_lifecycle_source ! 52 = [CHR 0x22]
   \<and> list_all (\<lambda>l. \<not> str_in [CHR 0x22, CHR 0x22, CHR 0x22] l) (drop 10 update_lifecycle_source)
   \<and> lex_end (join_lines update_lifecycle_source) = Long (CHR 0x22)
   \<and> run_file update_lifecycle_source update_lifecycle w = (Some SyntaxError, w)"
proof -
  have a: "lex_end (join_lines (take 10 update_lifecycle_source)) = Long (CHR 0x22)"
    by code_simp
  have b: "update_lifecycle_source ! 52 = [CHR 0x22]"
    by code_simp
  have c: "list_all (\<lambda>l. \<not> str_in [CHR 0x22, CHR 0x22, CHR 0x22] l) (drop 10 update_lifecycle_source)"
    by code_simp
  have d: "lex_end (join_lines update_lifecycle_source) = Long (CHR 0x22)"
    by code_simp
  then have "run_file update_lifecycle_source update_lifecycle w = (Some SyntaxError, w)"
    by (simp add: run_file_def)
  with a b c d show ?thesis by (simp only: simp_thms)
qed

text \<open>
  C3, as the scripts have it. In a text made of the interface anchor twice, the patch
  puts the insertion in front of both occurrences, not only in front of the first.
\<close>

theorem first_occurrence_only_counterexample:
  "apply_patch Interface_patch (interface_target @ interface_target)
     = interface_insert @ interface_target @ interface_insert @ interface_target
   \<and> apply_patch Interface_patch (interface_target @ interface_target)
     \<noteq> interface_insert @ interface_target @ interface_target"
proof -
  have nb: "\<not> str_in interface_target (butlast interface_target)"
    using not_sublist_butlast [OF anchor_nonempty [of Interface_patch]] by simp
  have "replace_scan interface_target (interface_insert @ interface_target)
          (concat (map (\<lambda>g. g @ interface_target) [[], []]) @ [])
       = concat (map (\<lambda>g. g @ interface_insert @ interface_target) [[], []]) @ []"
    using anchor_nonempty [of Interface_patch]
    by (intro replace_scan_segments) (simp_all add: nb)
  then have eq: "apply_patch Interface_patch (interface_target @ interface_target)
     = interface_insert @ interface_target @ interface_insert @ interface_target"
    using apply_patch_run [of Interface_patch "interface_target @ interface_target"] two_anchors_free
    by simp
  have "interface_insert \<noteq> []" using insertion_nonempty [of Interface_patch] by simp
  then show ?thesis by (simp only: eq) simp
qed

text \<open>
  C3, amended. For each of the three patches and every text without the marker, the
  insertion is put in front of every occurrence of the anchor that a scan from the left
  meets, the scan resuming after each anchor; the text between the occurrences and
  after the last one is unchanged. The text is given by its pieces: each \<open>g\<close> of \<open>gs\<close>
  is followed by an anchor and holds no earlier start of one, and \<open>l\<close> holds none.
\<close>

theorem every_occurrence_gets_insertion:
  assumes "\<forall>g\<in>set gs. \<not> str_in (anchor p) (g @ butlast (anchor p))"
    and "\<not> str_in (anchor p) l"
    and "\<not> str_in (marker p) (concat (map (\<lambda>g. g @ anchor p) gs) @ l)"
  shows "apply_patch p (concat (map (\<lambda>g. g @ anchor p) gs) @ l)
       = concat (map (\<lambda>g. g @ insertion p @ anchor p) gs) @ l"
proof -
  have "apply_patch p (concat (map (\<lambda>g. g @ anchor p) gs) @ l)
      = replace_scan (anchor p) (insertion p @ anchor p) (concat (map (\<lambda>g. g @ anchor p) gs) @ l)"
    using assms(3) by (rule apply_patch_run)
  also have "\<dots> = concat (map (\<lambda>g. g @ (insertion p @ anchor p)) gs) @ l"
    using anchor_nonempty assms(1) assms(2) by (rule replace_scan_segments)
  finally show ?thesis by (simp only: append_assoc)
qed

theorem every_occurrence_gets_insertion_witness:
  "\<not> str_in (anchor Interface_patch) (''a'' @ butlast (anchor Interface_patch))
   \<and> \<not> str_in (anchor Interface_patch) (''b'' @ butlast (anchor Interface_patch))
   \<and> \<not> str_in (anchor Interface_patch) ''c''
   \<and> \<not> str_in (marker Interface_patch) (''a'' @ interface_target @ ''b'' @ interface_target @ ''c'')
   \<and> apply_patch Interface_patch (''a'' @ interface_target @ ''b'' @ interface_target @ ''c'')
       = ''a'' @ interface_insert @ interface_target @ ''b'' @ interface_insert @ interface_target @ ''c''"
  using every_occurrence_gets_insertion [of "[''a'', ''b'']" Interface_patch "''c''"] two_anchor_text_free
  by (simp del: apply_patch.simps)

text \<open>
  C4, as the scripts have it. On a file that holds neither anchor and neither marker,
  \<^verbatim>\<open>update_repo.py\<close> prints \<^verbatim>\<open>Updated task-repository.ts\<close>, the very line it prints on
  a file in which it has made an insertion. The missing anchor is not reported.
\<close>

theorem anchor_absent_not_reported:
  "\<not> str_in (anchor Interface_patch) ''class A {}''
   \<and> \<not> str_in (anchor Class_patch) ''class A {}''
   \<and> \<not> str_in (marker Interface_patch) ''class A {}''
   \<and> \<not> str_in (marker Class_patch) ''class A {}''
   \<and> stdout_of (update_repo (single_file repo_file_path ''class A {}''))
       = [''Updated task-repository.ts'']
   \<and> file_after (update_repo (single_file repo_file_path interface_target)) repo_file_path
       = Some (interface_insert @ interface_target)
   \<and> stdout_of (update_repo (single_file repo_file_path interface_target))
       = [''Updated task-repository.ts'']"
proof -
  have r: "update_repo (single_file repo_file_path t)
     = (None, \<lparr>files = (files (single_file repo_file_path t))(repo_file_path \<mapsto> class_step (interface_step t)),
           events = events (single_file repo_file_path t) @ [Wrote repo_file_path (class_step (interface_step t)),
                                Printed ''Updated task-repository.ts'']\<rparr>)" for t
    by (rule update_repo_result) (simp add: single_file_def)
  have "apply_patch Interface_patch interface_target = interface_insert @ interface_target"
    using apply_patch_anchor_alone [of Interface_patch] interface_target_free by simp
  moreover have "apply_patch Class_patch (interface_insert @ interface_target) = interface_insert @ interface_target"
    using apply_patch_absent [of Class_patch "interface_insert @ interface_target"] inserted_interface_free
    by simp
  ultimately have "class_step (interface_step interface_target) = interface_insert @ interface_target"
    by simp
  then show ?thesis
    by (simp add: r sample_text_free stdout_of_def file_after_def single_file_simps)
qed

text \<open>
  C4, amended. For each of the three patches and every text that does not hold the
  anchor of the patch, the patched text is the input text. When neither patch of
  \<^verbatim>\<open>update_repo.py\<close> finds its anchor, every file on disk is after the run what it was
  before, and the script is silent about it: it prints its one line
  \<^verbatim>\<open>Updated task-repository.ts\<close> as on every run.
\<close>

theorem anchor_absent_silent_no_change:
  "(\<not> str_in (anchor p) content \<longrightarrow> apply_patch p content = content)
   \<and> (files w repo_file_path = Some body \<and> \<not> str_in interface_target body \<and> \<not> str_in class_target body \<longrightarrow>
        file_after (update_repo w) path = files w path
      \<and> stdout_of (update_repo w) = printed_lines (events w) @ [''Updated task-repository.ts''])"
proof (intro conjI impI)
  assume "\<not> str_in (anchor p) content"
  then show "apply_patch p content = content" by (rule apply_patch_absent)
next
  assume a: "files w repo_file_path = Some body \<and> \<not> str_in interface_target body \<and> \<not> str_in class_target body"
  then have s: "class_step (interface_step body) = body"
    using apply_patch_absent [of Interface_patch body] apply_patch_absent [of Class_patch body] by simp
  from a have f: "files w repo_file_path = Some body" by simp
  show "file_after (update_repo w) path = files w path"
    by (simp only: update_repo_result [OF f] s file_after_same [OF f])
  show "stdout_of (update_repo w) = printed_lines (events w) @ [''Updated task-repository.ts'']"
    by (simp add: update_repo_result [OF f] stdout_of_def printed_lines_append)
qed

theorem anchor_absent_silent_no_change_witness:
  "\<not> str_in (anchor Lifecycle_patch) ''class A {}''
   \<and> apply_patch Lifecycle_patch ''class A {}'' = ''class A {}''
   \<and> files (single_file repo_file_path ''class A {}'') repo_file_path = Some ''class A {}''
   \<and> \<not> str_in interface_target ''class A {}'' \<and> \<not> str_in class_target ''class A {}''
   \<and> file_after (update_repo (single_file repo_file_path ''class A {}'')) repo_file_path = Some ''class A {}''
   \<and> stdout_of (update_repo (single_file repo_file_path ''class A {}'')) = [''Updated task-repository.ts'']"
  using anchor_absent_silent_no_change [of Lifecycle_patch "''class A {}''" "single_file repo_file_path ''class A {}''" "''class A {}''" repo_file_path]
    sample_text_free
  by (simp add: single_file_simps del: apply_patch.simps)




text \<open>
  C6. Splice in front of the anchor: for every patch of the two scripts and every text
  in which the anchor of the patch starts at exactly one position \<open>n\<close> and which does
  not hold the marker, the patched text is the text up to \<open>n\<close>, then the insertion, then
  the text from \<open>n\<close> on, which begins with the anchor. The insertion is at once followed
  by the anchor and every other byte stays where it was, before and after the inserted
  block.
\<close>

theorem before_splice_single_occurrence:
  assumes "occurrences (anchor p) content = [n]" and "\<not> str_in (marker p) content"
  shows "apply_patch p content = take n content @ insertion p @ drop n content
       \<and> prefix (anchor p) (drop n content)"
proof -
  note sp = single_occurrence_split [OF assms(1) anchor_nonempty]
  have "apply_patch p content = replace_scan (anchor p) (insertion p @ anchor p) content"
    using assms(2) by (rule apply_patch_run)
  also have "\<dots> = take n content @ (insertion p @ anchor p) @ drop (n + length (anchor p)) content"
    by (rule sp(1))
  also have "\<dots> = take n content @ insertion p @ drop n content"
    by (simp add: sp(2))
  finally show ?thesis using sp(2) by simp
qed

theorem before_splice_single_occurrence_witness:
  "occurrences (anchor Interface_patch) (''a'' @ interface_target @ ''b'') = [1]
   \<and> \<not> str_in (marker Interface_patch) (''a'' @ interface_target @ ''b'')
   \<and> apply_patch Interface_patch (''a'' @ interface_target @ ''b'')
       = ''a'' @ interface_insert @ interface_target @ ''b''"
  using before_splice_single_occurrence [of Interface_patch "''a'' @ interface_target @ ''b''" 1]
    witness_text_occurrences witness_text_free
  by simp

text \<open>
  C7, as the scripts have it. On a file that holds both markers \<^verbatim>\<open>update_repo.py\<close>
  skips both insertions, leaves the text as it is and prints
  \<^verbatim>\<open>Updated task-repository.ts\<close>, the line it also prints on a file in which it has
  made an insertion. No skip is reported.
\<close>

theorem marker_skip_not_reported:
  "str_in (marker Interface_patch) (interface_insert @ class_insert)
   \<and> str_in (marker Class_patch) (interface_insert @ class_insert)
   \<and> file_after (update_repo (single_file repo_file_path (interface_insert @ class_insert))) repo_file_path
       = Some (interface_insert @ class_insert)
   \<and> stdout_of (update_repo (single_file repo_file_path (interface_insert @ class_insert)))
       = [''Updated task-repository.ts'']
   \<and> file_after (update_repo (single_file repo_file_path class_target)) repo_file_path
       = Some (class_insert @ class_target)
   \<and> stdout_of (update_repo (single_file repo_file_path class_target))
       = [''Updated task-repository.ts'']"
proof -
  have "class_step (interface_step (interface_insert @ class_insert)) = interface_insert @ class_insert"
    by (simp add: interface_step_def class_step_def)
  moreover have "apply_patch Interface_patch class_target = class_target"
    using apply_patch_absent [of Interface_patch class_target] class_target_free by simp
  moreover have "apply_patch Class_patch class_target = class_insert @ class_target"
    using apply_patch_anchor_alone [of Class_patch] class_target_free by simp
  ultimately show ?thesis
    by (simp add: update_repo_single_file stdout_of_def file_after_def)
qed

text \<open>
  C7, amended. For each of the three patches and every text that holds the marker of
  the patch, the insertion is skipped and the text is unchanged, whether and wherever
  the anchor occurs. When both patches of \<^verbatim>\<open>update_repo.py\<close> find their markers, every
  file on disk is after the run what it was before, and the script prints its one line
  \<^verbatim>\<open>Updated task-repository.ts\<close> as on every run.
\<close>

theorem marker_forces_skip:
  "(str_in (marker p) content \<longrightarrow> apply_patch p content = content)
   \<and> (files w repo_file_path = Some body \<and> str_in interface_insert body \<and> str_in class_insert body \<longrightarrow>
        file_after (update_repo w) path = files w path
      \<and> stdout_of (update_repo w) = printed_lines (events w) @ [''Updated task-repository.ts''])"
proof (intro conjI impI)
  assume "str_in (marker p) content"
  then show "apply_patch p content = content" by (rule apply_patch_skip)
next
  assume a: "files w repo_file_path = Some body \<and> str_in interface_insert body \<and> str_in class_insert body"
  then have s: "class_step (interface_step body) = body"
    by (simp add: interface_step_def class_step_def)
  from a have f: "files w repo_file_path = Some body" by simp
  show "file_after (update_repo w) path = files w path"
    by (simp only: update_repo_result [OF f] s file_after_same [OF f])
  show "stdout_of (update_repo w) = printed_lines (events w) @ [''Updated task-repository.ts'']"
    by (simp add: update_repo_result [OF f] stdout_of_def printed_lines_append)
qed

theorem marker_forces_skip_witness:
  "str_in (marker Lifecycle_patch) (''ackTask'' @ target)
   \<and> apply_patch Lifecycle_patch (''ackTask'' @ target) = ''ackTask'' @ target
   \<and> files (single_file repo_file_path (interface_insert @ class_insert @ class_target)) repo_file_path
       = Some (interface_insert @ class_insert @ class_target)
   \<and> str_in interface_insert (interface_insert @ class_insert @ class_target)
   \<and> str_in class_insert (interface_insert @ class_insert @ class_target)
   \<and> file_after (update_repo (single_file repo_file_path (interface_insert @ class_insert @ class_target))) repo_file_path
       = Some (interface_insert @ class_insert @ class_target)"
proof -
  have a: "str_in ''ackTask'' (''ackTask'' @ target)" by (rule sublist_append_rightI)
  have c: "str_in interface_insert (interface_insert @ class_insert @ class_target)" by (rule sublist_append_rightI)
  have d: "str_in class_insert (interface_insert @ class_insert @ class_target)" by (rule sublist_appendI)
  show ?thesis
    using marker_forces_skip [of Lifecycle_patch "''ackTask'' @ target"
        "single_file repo_file_path (interface_insert @ class_insert @ class_target)"
        "interface_insert @ class_insert @ class_target" repo_file_path]
      a c d
    by (simp add: single_file_simps del: apply_patch.simps)
qed

text \<open>
  C8. Sequential composition and independence in \<^verbatim>\<open>update_repo.py\<close>: the text written
  is what the class insertion makes of the output of the interface insertion. When the
  anchor of the interface insertion is absent, the class insertion is still attempted,
  on the text as read, and when it is eligible there (its marker absent, its anchor
  present) it is applied: the text written holds the class insertion in front of the
  class anchor and differs from the text read.
\<close>

theorem update_repo_sequential_independent:
  assumes "files w repo_file_path = Some content"
  shows "file_after (update_repo w) repo_file_path
           = Some (apply_patch Class_patch (apply_patch Interface_patch content))
       \<and> (\<not> str_in (anchor Interface_patch) content \<longrightarrow>
            file_after (update_repo w) repo_file_path = Some (apply_patch Class_patch content)
          \<and> (\<not> str_in (marker Class_patch) content \<and> str_in (anchor Class_patch) content \<longrightarrow>
               str_in (insertion Class_patch @ anchor Class_patch) (apply_patch Class_patch content)
             \<and> apply_patch Class_patch content \<noteq> content))"
proof -
  have "file_after (update_repo w) repo_file_path
          = Some (apply_patch Class_patch (apply_patch Interface_patch content))"
    by (simp add: update_repo_result [OF assms] file_after_def)
  moreover have "apply_patch Interface_patch content = content"
    if "\<not> str_in (anchor Interface_patch) content"
    using that by (rule apply_patch_absent)
  moreover have "str_in (insertion Class_patch @ anchor Class_patch) (apply_patch Class_patch content)
      \<and> apply_patch Class_patch content \<noteq> content"
    if "\<not> str_in (marker Class_patch) content \<and> str_in (anchor Class_patch) content"
    using that apply_patch_inserts(1) [of Class_patch content] apply_patch_changes [of Class_patch content]
    by blast
  ultimately show ?thesis by (simp del: apply_patch.simps)
qed

theorem update_repo_sequential_independent_witness:
  "files (single_file repo_file_path class_target) repo_file_path = Some class_target
   \<and> \<not> str_in (anchor Interface_patch) class_target
   \<and> file_after (update_repo (single_file repo_file_path class_target)) repo_file_path
       = Some (apply_patch Class_patch class_target)
   \<and> str_in (class_insert @ class_target) (apply_patch Class_patch class_target)
   \<and> apply_patch Class_patch class_target \<noteq> class_target"
  using update_repo_sequential_independent [of "single_file repo_file_path class_target" class_target]
    class_target_free
  by (simp add: single_file_def apply_patch_absent del: apply_patch.simps)



text \<open>
  C10. Exact change characterization for \<^verbatim>\<open>update_repo.py\<close>: for every content of the
  file, the script writes the file once, with the text that the class insertion makes
  of the text that the interface insertion makes of the content read, and the text
  written differs from the text read if and only if the interface insertion text is
  absent and the interface target present, or the class insertion text is absent and
  the class target present. In every other case the file is rewritten with the same
  bytes.
\<close>

theorem update_repo_change_exact:
  assumes "files w repo_file_path = Some content"
  shows "file_after (update_repo w) repo_file_path = Some (class_step (interface_step content))
       \<and> writes_of (update_repo w) = writes (events w) @ [(repo_file_path, class_step (interface_step content))]
       \<and> (class_step (interface_step content) \<noteq> content \<longleftrightarrow>
            (\<not> str_in interface_insert content \<and> str_in interface_target content)
          \<or> (\<not> str_in class_insert content \<and> str_in class_target content))"
proof -
  let ?c1 = "apply_patch Interface_patch content"
  let ?c2 = "apply_patch Class_patch ?c1"
  have io: "file_after (update_repo w) repo_file_path = Some (class_step (interface_step content))"
    "writes_of (update_repo w) = writes (events w) @ [(repo_file_path, class_step (interface_step content))]"
    by (simp_all add: update_repo_result [OF assms] file_after_def writes_of_def writes_append)
  have one: "?c1 \<noteq> content \<longleftrightarrow> \<not> str_in interface_insert content \<and> str_in interface_target content"
    using apply_patch_changes [of Interface_patch content] by simp
  have two: "?c2 \<noteq> ?c1 \<longleftrightarrow> \<not> str_in class_insert ?c1 \<and> str_in class_target ?c1"
    using apply_patch_changes [of Class_patch ?c1] by simp
  have "?c2 \<noteq> content \<longleftrightarrow>
          (\<not> str_in interface_insert content \<and> str_in interface_target content)
        \<or> (\<not> str_in class_insert content \<and> str_in class_target content)"
  proof (cases "?c1 = content")
    case True
    with one two show ?thesis by auto
  next
    case False
    then have "length content < length ?c1"
      using length_apply_patch [of content Interface_patch] apply_patch_changes [of Interface_patch content]
        apply_patch_inserts(2) [of Interface_patch content] by blast
    moreover have "length ?c1 \<le> length ?c2" by (rule length_apply_patch)
    ultimately have "?c2 \<noteq> content" by auto
    with False one show ?thesis by blast
  qed
  with io show ?thesis by simp
qed

theorem update_repo_change_exact_witness:
  "files (single_file repo_file_path interface_target) repo_file_path = Some interface_target
   \<and> file_after (update_repo (single_file repo_file_path interface_target)) repo_file_path
       = Some (class_step (interface_step interface_target))
   \<and> class_step (interface_step interface_target) \<noteq> interface_target"
  using update_repo_change_exact [of "single_file repo_file_path interface_target" interface_target]
  by (simp add: single_file_def interface_target_free)

end
